theory Spec2Isabelle
  imports Main "HOL-Library.Word" "HOL-Library.Sublist"
begin

section \<open>Data model of \<open>pkg/oci/authn/client.go\<close>\<close>

text \<open>
  The registry host (\<open>reg\<close>) is a Go string. A \<open>context.Context\<close> is opaque to
  this package: it is only handed on to the login handler and to the credential
  functions, so it is an opaque handle here. A Go \<open>error\<close> is an interface
  value: \<open>nil\<close> is \<open>None\<close>, anything else is \<open>Some e\<close>.
\<close>

type_synonym Host = string

datatype Context = Context nat

datatype Error = Error string

text \<open>
  \<open>auth.Credential\<close> of oras-go: a struct of four strings, compared with
  \<open>!=\<close> field by field. \<open>auth.EmptyCredential\<close> is its zero value.
\<close>

record Credential =
  Username :: string
  Password :: string
  RefreshToken :: string
  AccessToken :: string

definition EmptyCredential :: Credential where
  "EmptyCredential = \<lparr>Username = [], Password = [], RefreshToken = [], AccessToken = []\<rparr>"

text \<open>
  Everything outside the \<open>Options\<close> struct that a credential function or the
  login handler may read or change: the \<open>auth.Credential\<close> objects that
  \<open>*auth.Credential\<close> pointers refer to (\<open>creds\<close>, by address), and the rest
  (disk, network, environment) as \<open>ext\<close>. A pointer is \<open>None\<close> for \<open>nil\<close>.
\<close>

record 'x World =
  creds :: "nat \<Rightarrow> Credential"
  ext :: 'x

type_synonym CredentialPtr = "nat option"

text \<open>
  A call either returns or panics (a \<open>nil\<close> dereference at line 146); a panic
  unwinds through the caller.
\<close>

datatype 'a outcome = Returns 'a | Panics

type_synonym 'x CredentialFunc =
  "Context \<Rightarrow> Host \<Rightarrow> 'x World \<Rightarrow> (Credential \<times> Error option) outcome \<times> 'x World"

text \<open>
  Modelled from the spec: \<open>AutoLoginHandler\<close> and its method \<open>Login\<close> are
  declared in a file of this package that is not at hand. The spec (section 4.4)
  gives the interface \<open>Login(ctx, host) -> Error\<close>; the handler is taken as a
  parameter of that shape, acting on the world. The field of \<open>Options\<close> is a
  pointer: \<open>None\<close> is \<open>nil\<close>.
\<close>

type_synonym 'x AutoLoginHandler =
  "Context \<Rightarrow> Host \<Rightarrow> 'x World \<Rightarrow> Error option outcome \<times> 'x World"

text \<open>\<open>auth.Cache\<close> is an interface value that is handed on unchanged.\<close>

datatype TokenCache = TokenCache nat

record 'x Options =
  Ctx :: "Context option"
  CredentialsFuncsCache :: "Host \<rightharpoonup> 'x CredentialFunc"
  CredentialsFuncs :: "'x CredentialFunc list"
  AutoLoginHandler :: "'x AutoLoginHandler option"
  ClientTokenCache :: "TokenCache option"
  Insecure :: bool

text \<open>
  Observation of the calls made, in order: which function was called, with which
  arguments, and what came back. The source keeps no such log; it is carried
  along so that "is invoked" and "is not invoked" can be stated.
\<close>

datatype 'x Event =
  LoginCalled Context Host "Error option outcome"
  | FuncCalled "'x CredentialFunc" Context Host "(Credential \<times> Error option) outcome"

text \<open>
  The state the \<open>Credential\<close> callback runs in: the \<open>Options\<close> that the
  closure captured (only its cache is ever written), the world, and the log.
\<close>

record 'x State =
  opt :: "'x Options"
  world :: "'x World"
  calls :: "'x Event list"

section \<open>The credential callback (lines 78 to 107)\<close>

definition cache_put :: "Host \<Rightarrow> 'x CredentialFunc \<Rightarrow> 'x State \<Rightarrow> 'x State" where
  "cache_put reg credFunc s =
     s\<lparr>opt := (opt s)\<lparr>CredentialsFuncsCache := (CredentialsFuncsCache (opt s))(reg \<mapsto> credFunc)\<rparr>\<rparr>"

definition invoke ::
  "'x CredentialFunc \<Rightarrow> Context \<Rightarrow> Host \<Rightarrow> 'x State
     \<Rightarrow> (Credential \<times> Error option) outcome \<times> 'x State" where
  "invoke credFunc ctx reg s =
     (case credFunc ctx reg (world s) of
        (r, w) \<Rightarrow> (r, s\<lparr>world := w, calls := calls s @ [FuncCalled credFunc ctx reg r]\<rparr>))"

definition Login ::
  "'x AutoLoginHandler \<Rightarrow> Context \<Rightarrow> Host \<Rightarrow> 'x State \<Rightarrow> Error option outcome \<times> 'x State" where
  "Login handler ctx reg s =
     (case handler ctx reg (world s) of
        (r, w) \<Rightarrow> (r, s\<lparr>world := w, calls := calls s @ [LoginCalled ctx reg r]\<rparr>))"

text \<open>The loop of lines 93 to 104 over \<open>opt.CredentialsFuncs\<close>, then line 106.\<close>

fun search ::
  "'x CredentialFunc list \<Rightarrow> Context \<Rightarrow> Host \<Rightarrow> 'x State
     \<Rightarrow> (Credential \<times> Error option) outcome \<times> 'x State" where
  "search [] ctx reg s = (Returns (EmptyCredential, None), s)"
| "search (credFunc # rest) ctx reg s =
     (case invoke credFunc ctx reg s of
        (Panics, s1) \<Rightarrow> (Panics, s1)
      | (Returns (cred, err), s1) \<Rightarrow>
          if err \<noteq> None then (Returns (EmptyCredential, err), s1)
          else if cred \<noteq> EmptyCredential then (Returns (cred, None), cache_put reg credFunc s1)
          else search rest ctx reg s1)"

definition Credential ::
  "Context \<Rightarrow> Host \<Rightarrow> 'x State \<Rightarrow> (Credential \<times> Error option) outcome \<times> 'x State" where
  "Credential ctx reg s =
     (case CredentialsFuncsCache (opt s) reg of
        Some credFunc \<Rightarrow> invoke credFunc ctx reg s
      | None \<Rightarrow>
          (case AutoLoginHandler (opt s) of
             None \<Rightarrow> search (CredentialsFuncs (opt s)) ctx reg s
           | Some handler \<Rightarrow>
               (case Login handler ctx reg s of
                  (Panics, s1) \<Rightarrow> (Panics, s1)
                | (Returns (Some err), s1) \<Rightarrow> (Returns (EmptyCredential, Some err), s1)
                | (Returns None, s1) \<Rightarrow> search (CredentialsFuncs (opt s1)) ctx reg s1)))"

text \<open>
  The client lives as long as the process: a run is a sequence of calls of the
  callback, between which the outside may change the world (a caller that
  overwrites the credential a pointer refers to, a login elsewhere). A call that
  panics leaves the state as the panic found it.
\<close>

datatype 'x Step = Call Context Host | Outside "'x World \<Rightarrow> 'x World"

fun run :: "'x Step list \<Rightarrow> 'x State \<Rightarrow> 'x State" where
  "run [] s = s"
| "run (Call ctx reg # rest) s = run rest (snd (Credential ctx reg s))"
| "run (Outside g # rest) s = run rest (s\<lparr>world := g (world s)\<rparr>)"

section \<open>Reading the log\<close>

definition new_calls :: "'x State \<Rightarrow> 'x State \<Rightarrow> 'x Event list" where
  "new_calls s s' = drop (length (calls s)) (calls s')"

fun invoked :: "'x Event list \<Rightarrow> 'x CredentialFunc list" where
  "invoked [] = []"
| "invoked (FuncCalled f ctx reg r # evs) = f # invoked evs"
| "invoked (LoginCalled ctx reg r # evs) = invoked evs"

text \<open>
  An event after which the callback goes on: a login that returned \<open>nil\<close>, or a
  credential function that returned \<open>auth.EmptyCredential\<close> and \<open>nil\<close>.
\<close>

fun passes :: "'x Event \<Rightarrow> bool" where
  "passes (LoginCalled ctx reg r) = (r = Returns None)"
| "passes (FuncCalled f ctx reg r) = (r = Returns (EmptyCredential, None))"

section \<open>The options and \<open>NewClient\<close>\<close>

text \<open>
  An option is a Go function that updates the \<open>Options\<close> it is given. Three
  options append a credential function that comes from elsewhere
  (\<open>oauthStore.Credential\<close>, \<open>GCPCredential\<close>, \<open>credentials.Credential(store)\<close>);
  that function is a parameter here.
\<close>

definition WithAutoLogin :: "'x AutoLoginHandler option \<Rightarrow> 'x Options \<Rightarrow> 'x Options" where
  "WithAutoLogin handler c = c\<lparr>AutoLoginHandler := handler\<rparr>"

definition EmptyCredentialFunc :: "'x CredentialFunc" where
  "EmptyCredentialFunc ctx reg w = (Returns (EmptyCredential, None), w)"

definition WithOAuthCredentials :: "'x CredentialFunc \<Rightarrow> 'x Options \<Rightarrow> 'x Options" where
  "WithOAuthCredentials oauthStoreCredential c =
     c\<lparr>CredentialsFuncs := CredentialsFuncs c @ [oauthStoreCredential]\<rparr>"

definition WithGcpCredentials :: "'x CredentialFunc \<Rightarrow> 'x Options \<Rightarrow> 'x Options" where
  "WithGcpCredentials GCPCredential c =
     c\<lparr>CredentialsFuncs := CredentialsFuncs c @ [GCPCredential]\<rparr>"

text \<open>The function literal of lines 145 to 147: \<open>return *cred, nil\<close>.\<close>

definition staticCredential :: "CredentialPtr \<Rightarrow> 'x CredentialFunc" where
  "staticCredential cred ctx reg w =
     (case cred of None \<Rightarrow> (Panics, w) | Some a \<Rightarrow> (Returns (creds w a, None), w))"

definition WithCredentials :: "CredentialPtr \<Rightarrow> 'x Options \<Rightarrow> 'x Options" where
  "WithCredentials cred c = c\<lparr>CredentialsFuncs := CredentialsFuncs c @ [staticCredential cred]\<rparr>"

definition WithStore :: "'x CredentialFunc \<Rightarrow> 'x Options \<Rightarrow> 'x Options" where
  "WithStore storeCredential c = c\<lparr>CredentialsFuncs := CredentialsFuncs c @ [storeCredential]\<rparr>"

definition WithClientTokenCache :: "TokenCache option \<Rightarrow> 'x Options \<Rightarrow> 'x Options" where
  "WithClientTokenCache cache c = c\<lparr>ClientTokenCache := cache\<rparr>"

definition WithInsecure :: "'x Options \<Rightarrow> 'x Options" where
  "WithInsecure c = c\<lparr>Insecure := True\<rparr>"

text \<open>The options this package offers.\<close>

inductive package_option :: "('x Options \<Rightarrow> 'x Options) \<Rightarrow> bool" where
  "package_option (WithAutoLogin handler)"
| "package_option (WithOAuthCredentials f)"
| "package_option (WithGcpCredentials f)"
| "package_option (WithCredentials cred)"
| "package_option (WithStore f)"
| "package_option (WithClientTokenCache cache)"
| "package_option WithInsecure"

text \<open>\<open>time.Duration\<close> is an \<open>int64\<close> count of nanoseconds.\<close>

type_synonym Duration = "64 word"

definition Second :: Duration where
  "Second = 1000000000"

record Dialer =
  Timeout :: Duration
  KeepAlive :: Duration

datatype ProxyFunc = ProxyFromEnvironment

record TLSConfig =
  InsecureSkipVerify :: bool

text \<open>
  The fields of \<open>http.Transport\<close> that are set; \<open>DialContext\<close> holds the
  dialer whose method is installed, \<open>TLSClientConfig\<close> is a pointer.
\<close>

record Transport =
  Proxy :: "ProxyFunc option"
  DialContext :: "Dialer option"
  ForceAttemptHTTP2 :: bool
  MaxIdleConns :: int
  IdleConnTimeout :: Duration
  TLSHandshakeTimeout :: Duration
  ExpectContinueTimeout :: Duration
  TLSClientConfig :: "TLSConfig option"

text \<open>
  \<open>auth.Client\<close>: the HTTP client (its transport), the header, the token cache
  and the \<open>Credential\<close> callback. The callback is the closure whose code is
  \<open>Credential\<close> above; the field holds what the closure captured, \<open>opt\<close>.
\<close>

record 'x AuthClient =
  Client :: Transport
  Header :: "string \<rightharpoonup> string list"
  Cache :: "TokenCache option"
  CredentialClosure :: "'x Options"

definition falcoctlUserAgent :: string where
  "falcoctlUserAgent = ''falcoctl''"

text \<open>\<open>SetUserAgent\<close> of oras-go sets the header \<open>User-Agent\<close> to the one value.\<close>

definition SetUserAgent :: "string \<Rightarrow> 'x AuthClient \<Rightarrow> 'x AuthClient" where
  "SetUserAgent userAgent c = c\<lparr>Header := (Header c)(''User-Agent'' \<mapsto> [userAgent])\<rparr>"

text \<open>Lines 45 to 51: the zero \<open>Options\<close> with a fresh map, then every option in turn.\<close>

definition newOptions :: "'x Options" where
  "newOptions = \<lparr>Ctx = None, CredentialsFuncsCache = Map.empty, CredentialsFuncs = [],
     AutoLoginHandler = None, ClientTokenCache = None, Insecure = False\<rparr>"

fun applyOptions :: "('x Options \<Rightarrow> 'x Options) list \<Rightarrow> 'x Options \<Rightarrow> 'x Options" where
  "applyOptions [] c = c"
| "applyOptions (o1 # rest) c = applyOptions rest (o1 c)"

definition newTransport :: Transport where
  "newTransport = \<lparr>Proxy = Some ProxyFromEnvironment,
     DialContext = Some \<lparr>Timeout = 30 * Second, KeepAlive = 30 * Second\<rparr>,
     ForceAttemptHTTP2 = True,
     MaxIdleConns = 100,
     IdleConnTimeout = 90 * Second,
     TLSHandshakeTimeout = 10 * Second,
     ExpectContinueTimeout = 1 * Second,
     TLSClientConfig = None\<rparr>"

definition NewClient :: "('x Options \<Rightarrow> 'x Options) list \<Rightarrow> 'x AuthClient" where
  "NewClient options =
     (let c = applyOptions options newOptions;
          transport = (if Insecure c
                       then newTransport\<lparr>TLSClientConfig := Some \<lparr>InsecureSkipVerify = True\<rparr>\<rparr>
                       else newTransport);
          authClient = \<lparr>Client = transport, Header = Map.empty,
                        Cache = ClientTokenCache c, CredentialClosure = c\<rparr>
      in SetUserAgent falcoctlUserAgent authClient)"

text \<open>
  What the transport does with its TLS configuration: Go verifies the server's
  certificate unless a configuration is present and has \<open>InsecureSkipVerify\<close>.
\<close>

definition skipsVerification :: "'x AuthClient \<Rightarrow> bool" where
  "skipsVerification c =
     (case TLSClientConfig (Client c) of None \<Rightarrow> False | Some cfg \<Rightarrow> InsecureSkipVerify cfg)"

text \<open>The state in which the callback of a fresh client first runs.\<close>

definition start :: "'x AuthClient \<Rightarrow> 'x World \<Rightarrow> 'x State" where
  "start c w = \<lparr>opt = CredentialClosure c, world = w, calls = []\<rparr>"

text \<open>
  The credential functions an option contributes: what it leaves in
  \<open>CredentialsFuncs\<close> when applied to the fresh \<open>Options\<close> of line 45.
\<close>

definition provided :: "('x Options \<Rightarrow> 'x Options) \<Rightarrow> 'x CredentialFunc list" where
  "provided o1 = CredentialsFuncs (o1 newOptions)"

text \<open>
  How the result and the written cache follow from the last call that a run of
  the callback on an uncached host made.
\<close>

definition settles ::
  "Host \<Rightarrow> 'x Options \<Rightarrow> 'x Event \<Rightarrow> (Credential \<times> Error option) outcome \<Rightarrow> 'x Options \<Rightarrow> bool" where
  "settles reg c ev r c' =
     (case ev of
        LoginCalled ctx h Panics \<Rightarrow> r = Panics \<and> c' = c
      | LoginCalled ctx h (Returns (Some e)) \<Rightarrow> r = Returns (EmptyCredential, Some e) \<and> c' = c
      | LoginCalled ctx h (Returns None) \<Rightarrow> r = Returns (EmptyCredential, None) \<and> c' = c
      | FuncCalled f ctx h Panics \<Rightarrow> r = Panics \<and> c' = c
      | FuncCalled f ctx h (Returns (cred, Some e)) \<Rightarrow> r = Returns (EmptyCredential, Some e) \<and> c' = c
      | FuncCalled f ctx h (Returns (cred, None)) \<Rightarrow>
          if cred \<noteq> EmptyCredential
          then r = Returns (cred, None)
             \<and> c' = c\<lparr>CredentialsFuncsCache := (CredentialsFuncsCache c)(reg \<mapsto> f)\<rparr>
          else r = Returns (EmptyCredential, None) \<and> c' = c)"

section \<open>Example configurations\<close>

text \<open>
  The scenarios of the specification, at the world type \<open>unit World\<close>:
  credential functions that always answer the same, a login that fails and one
  that succeeds, and a world in which address 0 holds a basic credential and
  every other address the empty one.
\<close>

definition userPass :: Credential where
  "userPass = \<lparr>Username = ''u'', Password = ''p'', RefreshToken = [], AccessToken = []\<rparr>"

definition tokenT1 :: Credential where
  "tokenT1 = \<lparr>Username = [], Password = [], RefreshToken = [], AccessToken = ''T1''\<rparr>"

definition exampleWorld :: "unit World" where
  "exampleWorld = \<lparr>creds = (\<lambda>a. if a = 0 then userPass else EmptyCredential), ext = ()\<rparr>"

definition oauthT1 :: "unit CredentialFunc" where
  "oauthT1 ctx reg w = (Returns (tokenT1, None), w)"

definition diskFails :: "unit CredentialFunc" where
  "diskFails ctx reg w = (Returns (EmptyCredential, Some (Error ''disk read failed'')), w)"

definition loginFails :: "unit AutoLoginHandler" where
  "loginFails ctx reg w = (Returns (Some (Error ''login failed'')), w)"

definition loginOk :: "unit AutoLoginHandler" where
  "loginOk ctx reg w = (Returns None, w)"

definition scenarioA :: "unit State" where
  "scenarioA = start (NewClient [WithStore EmptyCredentialFunc, WithOAuthCredentials oauthT1,
      WithGcpCredentials diskFails]) exampleWorld"

definition scenarioB :: "unit State" where
  "scenarioB = start (NewClient [WithCredentials (Some 0)]) exampleWorld"

definition scenarioC :: "unit State" where
  "scenarioC = start (NewClient [WithStore EmptyCredentialFunc, WithStore diskFails,
      WithOAuthCredentials oauthT1]) exampleWorld"

definition scenarioLoginFails :: "unit State" where
  "scenarioLoginFails =
     start (NewClient [WithAutoLogin (Some loginFails), WithStore EmptyCredentialFunc]) exampleWorld"

definition scenarioAnonymous :: "unit State" where
  "scenarioAnonymous =
     start (NewClient [WithAutoLogin (Some loginOk), WithStore EmptyCredentialFunc,
       WithCredentials (Some 1)]) exampleWorld"

definition scenarioA1 :: "unit State" where
  "scenarioA1 = \<lparr>opt = \<lparr>Ctx = None, CredentialsFuncsCache = [''reg.example.com'' \<mapsto> oauthT1],
      CredentialsFuncs = [EmptyCredentialFunc, oauthT1, diskFails],
      AutoLoginHandler = None, ClientTokenCache = None, Insecure = False\<rparr>,
    world = exampleWorld,
    calls = [FuncCalled EmptyCredentialFunc (Context 0) ''reg.example.com'' (Returns (EmptyCredential, None)),
             FuncCalled oauthT1 (Context 0) ''reg.example.com'' (Returns (tokenT1, None))]\<rparr>"

definition scenarioC1 :: "unit State" where
  "scenarioC1 = \<lparr>opt = \<lparr>Ctx = None, CredentialsFuncsCache = Map.empty,
      CredentialsFuncs = [EmptyCredentialFunc, diskFails, oauthT1],
      AutoLoginHandler = None, ClientTokenCache = None, Insecure = False\<rparr>,
    world = exampleWorld,
    calls = [FuncCalled EmptyCredentialFunc (Context 0) ''y.io'' (Returns (EmptyCredential, None)),
             FuncCalled diskFails (Context 0) ''y.io''
               (Returns (EmptyCredential, Some (Error ''disk read failed'')))]\<rparr>"

definition scenarioAnonymous1 :: "unit State" where
  "scenarioAnonymous1 = \<lparr>opt = \<lparr>Ctx = None, CredentialsFuncsCache = Map.empty,
      CredentialsFuncs = [EmptyCredentialFunc, staticCredential (Some 1)],
      AutoLoginHandler = Some loginOk, ClientTokenCache = None, Insecure = False\<rparr>,
    world = exampleWorld,
    calls = [LoginCalled (Context 0) ''reg.example.com'' (Returns None),
             FuncCalled EmptyCredentialFunc (Context 0) ''reg.example.com'' (Returns (EmptyCredential, None)),
             FuncCalled (staticCredential (Some 1)) (Context 0) ''reg.example.com''
               (Returns (EmptyCredential, None))]\<rparr>"

definition overwrite :: "unit World \<Rightarrow> unit World" where
  "overwrite w = w\<lparr>creds := (\<lambda>a. userPass)\<rparr>"

definition laterSteps :: "unit Step list" where
  "laterSteps = [Call (Context 2) ''x.io'', Outside overwrite]"

section \<open>The log of one call of the callback\<close>

text \<open>
  A call of a credential function or of the login adds one event to the log and
  leaves \<open>Options\<close> alone; writing the cache leaves the log alone.
\<close>

lemma invoke_opt: "invoke f ctx reg s = (r, s') \<Longrightarrow> opt s' = opt s"
  by (auto simp: invoke_def split: prod.splits)

lemma invoke_calls: "invoke f ctx reg s = (r, s') \<Longrightarrow> calls s' = calls s @ [FuncCalled f ctx reg r]"
  by (auto simp: invoke_def split: prod.splits)

lemma Login_opt: "Login h ctx reg s = (r, s') \<Longrightarrow> opt s' = opt s"
  by (auto simp: Login_def split: prod.splits)

lemma Login_calls: "Login h ctx reg s = (r, s') \<Longrightarrow> calls s' = calls s @ [LoginCalled ctx reg r]"
  by (auto simp: Login_def split: prod.splits)

lemma cache_put_calls: "calls (cache_put reg f s) = calls s"
  by (simp add: cache_put_def)

lemma cache_put_opt:
  "opt (cache_put reg f s) = (opt s)\<lparr>CredentialsFuncsCache := (CredentialsFuncsCache (opt s))(reg \<mapsto> f)\<rparr>"
  by (simp add: cache_put_def)

text \<open>
  The calls of a search are calls of the first functions of the list, in order;
  all but the last let the search go on, and the last decides the result.
\<close>

lemma search_log:
  "search ps ctx reg s = (r, s') \<Longrightarrow>
   \<exists>evs. calls s' = calls s @ evs
     \<and> prefix (invoked evs) ps
     \<and> (\<forall>e \<in> set evs. \<exists>f res. e = FuncCalled f ctx reg res)
     \<and> (\<forall>e \<in> set (butlast evs). passes e)
     \<and> (evs = [] \<longrightarrow> ps = [] \<and> r = Returns (EmptyCredential, None) \<and> opt s' = opt s)
     \<and> (evs \<noteq> [] \<longrightarrow> settles reg (opt s) (last evs) r (opt s'))
     \<and> (evs \<noteq> [] \<and> passes (last evs) \<longrightarrow> invoked evs = ps)"
proof (induction ps arbitrary: s)
  case Nil
  then show ?case by simp
next
  case (Cons p ps)
  obtain res s1 where inv: "invoke p ctx reg s = (res, s1)"
    by (cases "invoke p ctx reg s")
  let ?ev = "FuncCalled p ctx reg res"
  have c1: "calls s1 = calls s @ [?ev]" and o1: "opt s1 = opt s"
    using inv by (simp_all add: invoke_calls invoke_opt)
  show ?case
  proof (cases "passes ?ev")
    case False
    then have stop: "r = (case res of Panics \<Rightarrow> Panics
          | Returns (cred, err) \<Rightarrow> if err \<noteq> None then Returns (EmptyCredential, err) else Returns (cred, None))"
      and s': "s' = (case res of Panics \<Rightarrow> s1
          | Returns (cred, err) \<Rightarrow> if err \<noteq> None then s1 else cache_put reg p s1)"
      using Cons.prems inv by (auto split: outcome.splits prod.splits if_splits)
    have "calls s' = calls s @ [?ev]"
      using s' c1 by (auto simp: cache_put_calls split: outcome.splits prod.splits)
    moreover have "settles reg (opt s) ?ev r (opt s')"
      using stop s' o1 False
      by (auto simp: settles_def cache_put_opt split: outcome.splits prod.splits option.splits)
    ultimately show ?thesis
      using False by (intro exI[of _ "[?ev]"]) simp
  next
    case True
    then have res: "res = Returns (EmptyCredential, None)" by simp
    then have rec: "search ps ctx reg s1 = (r, s')"
      using Cons.prems inv by simp
    from Cons.IH[OF rec] obtain evs where
      a: "calls s' = calls s1 @ evs" and
      b: "prefix (invoked evs) ps" and
      c: "\<forall>e \<in> set evs. \<exists>f res. e = FuncCalled f ctx reg res" and
      d: "\<forall>e \<in> set (butlast evs). passes e" and
      e: "evs = [] \<longrightarrow> ps = [] \<and> r = Returns (EmptyCredential, None) \<and> opt s' = opt s1" and
      f: "evs \<noteq> [] \<longrightarrow> settles reg (opt s1) (last evs) r (opt s')" and
      g: "evs \<noteq> [] \<and> passes (last evs) \<longrightarrow> invoked evs = ps"
      by blast
    have "calls s' = calls s @ (?ev # evs)" using a c1 by simp
    moreover have "prefix (invoked (?ev # evs)) (p # ps)" using b by simp
    moreover have "\<forall>e \<in> set (?ev # evs). \<exists>f res. e = FuncCalled f ctx reg res" using c by simp
    moreover have "\<forall>e \<in> set (butlast (?ev # evs)). passes e" using d True by simp
    moreover have "settles reg (opt s) (last (?ev # evs)) r (opt s')"
      using e f o1 res by (cases "evs = []") (simp_all add: settles_def)
    moreover have "passes (last (?ev # evs)) \<longrightarrow> invoked (?ev # evs) = p # ps"
      using e g by (cases "evs = []") simp_all
    ultimately show ?thesis
      by (intro exI[of _ "?ev # evs"]) simp
  qed
qed

text \<open>The same for the whole callback on a host that is not cached, login included.\<close>

lemma Credential_miss_log:
  assumes miss: "CredentialsFuncsCache (opt s) reg = None"
    and run: "Credential ctx reg s = (r, s')"
  shows "\<exists>evs. calls s' = calls s @ evs
     \<and> prefix (invoked evs) (CredentialsFuncs (opt s))
     \<and> (\<forall>e \<in> set evs. (\<exists>f res. e = FuncCalled f ctx reg res) \<or> (\<exists>res. e = LoginCalled ctx reg res))
     \<and> (\<forall>e \<in> set (butlast evs). passes e)
     \<and> (evs = [] \<longrightarrow> r = Returns (EmptyCredential, None) \<and> opt s' = opt s)
     \<and> (evs \<noteq> [] \<longrightarrow> settles reg (opt s) (last evs) r (opt s'))
     \<and> ((\<forall>e \<in> set evs. passes e) \<longrightarrow> invoked evs = CredentialsFuncs (opt s))"
proof (cases "AutoLoginHandler (opt s)")
  case None
  then have "search (CredentialsFuncs (opt s)) ctx reg s = (r, s')"
    using miss run by (simp add: Credential_def)
  from search_log[OF this] obtain evs where
    a: "calls s' = calls s @ evs" and
    b: "prefix (invoked evs) (CredentialsFuncs (opt s))" and
    c: "\<forall>e \<in> set evs. \<exists>f res. e = FuncCalled f ctx reg res" and
    d: "\<forall>e \<in> set (butlast evs). passes e" and
    e: "evs = [] \<longrightarrow> CredentialsFuncs (opt s) = [] \<and> r = Returns (EmptyCredential, None) \<and> opt s' = opt s" and
    f: "evs \<noteq> [] \<longrightarrow> settles reg (opt s) (last evs) r (opt s')" and
    g: "evs \<noteq> [] \<and> passes (last evs) \<longrightarrow> invoked evs = CredentialsFuncs (opt s)"
    by blast
  have "(\<forall>e \<in> set evs. passes e) \<longrightarrow> invoked evs = CredentialsFuncs (opt s)"
    using e g by (cases "evs = []") simp_all
  then show ?thesis using a b c d e f by blast
next
  case (Some handler)
  obtain res s1 where lg: "Login handler ctx reg s = (res, s1)"
    by (cases "Login handler ctx reg s")
  let ?ev = "LoginCalled ctx reg res"
  have c1: "calls s1 = calls s @ [?ev]" and o1: "opt s1 = opt s"
    using lg by (simp_all add: Login_calls Login_opt)
  show ?thesis
  proof (cases "passes ?ev")
    case False
    then have "r = (case res of Panics \<Rightarrow> Panics | Returns err \<Rightarrow> Returns (EmptyCredential, err))"
      and "s' = s1"
      using miss run Some lg by (auto simp: Credential_def split: outcome.splits option.splits)
    then have "calls s' = calls s @ [?ev]" and "settles reg (opt s) ?ev r (opt s')"
      using c1 o1 False by (auto simp: settles_def split: outcome.splits option.splits)
    then show ?thesis
      using False by (intro exI[of _ "[?ev]"]) simp
  next
    case True
    then have res: "res = Returns None" by simp
    then have "search (CredentialsFuncs (opt s)) ctx reg s1 = (r, s')"
      using miss run Some lg o1 by (simp add: Credential_def)
    from search_log[OF this] obtain evs where
      a: "calls s' = calls s1 @ evs" and
      b: "prefix (invoked evs) (CredentialsFuncs (opt s))" and
      c: "\<forall>e \<in> set evs. \<exists>f res. e = FuncCalled f ctx reg res" and
      d: "\<forall>e \<in> set (butlast evs). passes e" and
      e: "evs = [] \<longrightarrow> CredentialsFuncs (opt s) = [] \<and> r = Returns (EmptyCredential, None) \<and> opt s' = opt s1" and
      f: "evs \<noteq> [] \<longrightarrow> settles reg (opt s1) (last evs) r (opt s')" and
      g: "evs \<noteq> [] \<and> passes (last evs) \<longrightarrow> invoked evs = CredentialsFuncs (opt s)"
      by blast
    have "calls s' = calls s @ (?ev # evs)" using a c1 by simp
    moreover have "prefix (invoked (?ev # evs)) (CredentialsFuncs (opt s))" using b by simp
    moreover have "\<forall>e \<in> set (?ev # evs).
        (\<exists>f res. e = FuncCalled f ctx reg res) \<or> (\<exists>res. e = LoginCalled ctx reg res)"
      using c by auto
    moreover have "\<forall>e \<in> set (butlast (?ev # evs)). passes e" using d True by simp
    moreover have "settles reg (opt s) (last (?ev # evs)) r (opt s')"
      using e f o1 res by (cases "evs = []") (simp_all add: settles_def)
    moreover have "(\<forall>e \<in> set (?ev # evs). passes e) \<longrightarrow> invoked (?ev # evs) = CredentialsFuncs (opt s)"
      using e g by (cases "evs = []") simp_all
    ultimately show ?thesis
      by (intro exI[of _ "?ev # evs"]) simp
  qed
qed

text \<open>A call that does not let the run go on can only be the last one.\<close>

lemma stops_at_last:
  assumes "\<forall>e \<in> set (butlast evs). passes e" "i < length evs" "\<not> passes (evs ! i)"
  shows "Suc i = length evs \<and> last evs = evs ! i"
proof -
  have "\<not> i < length (butlast evs)"
  proof
    assume "i < length (butlast evs)"
    then have "butlast evs ! i \<in> set (butlast evs)" by simp
    moreover have "butlast evs ! i = evs ! i"
      using \<open>i < length (butlast evs)\<close> by (simp add: nth_butlast)
    ultimately show False using assms by auto
  qed
  then have "Suc i = length evs" using assms(2) by simp
  moreover from this have "last evs = evs ! i"
    using assms(2) by (metis diff_Suc_1 last_conv_nth less_nat_zero_code list.size(3))
  ultimately show ?thesis by simp
qed

lemma new_calls_append: "calls s' = calls s @ evs \<Longrightarrow> new_calls s s' = evs"
  by (simp add: new_calls_def)

lemma settles_cache:
  "settles reg c ev r c' \<Longrightarrow>
     c' = c \<or> (\<exists>f ctx h cred. ev = FuncCalled f ctx h (Returns (cred, None)) \<and> cred \<noteq> EmptyCredential
          \<and> r = Returns (cred, None)
          \<and> c' = c\<lparr>CredentialsFuncsCache := (CredentialsFuncsCache c)(reg \<mapsto> f)\<rparr>)"
  by (auto simp: settles_def split: Event.splits outcome.splits option.splits prod.splits if_splits)

lemma settles_success:
  "settles reg c ev (Returns (cred, None)) c' \<Longrightarrow> cred \<noteq> EmptyCredential \<Longrightarrow>
     \<exists>f ctx h. ev = FuncCalled f ctx h (Returns (cred, None))
          \<and> c' = c\<lparr>CredentialsFuncsCache := (CredentialsFuncsCache c)(reg \<mapsto> f)\<rparr>"
  by (auto simp: settles_def split: Event.splits outcome.splits option.splits prod.splits if_splits)

lemma invoked_mem: "FuncCalled f ctx reg r \<in> set evs \<Longrightarrow> f \<in> set (invoked evs)"
  by (induction evs rule: invoked.induct) auto

lemma invoke_eq:
  "p ctx reg (world s) = (r, w) \<Longrightarrow>
     invoke p ctx reg s = (r, s\<lparr>world := w, calls := calls s @ [FuncCalled p ctx reg r]\<rparr>)"
  by (simp add: invoke_def)

lemma Credential_hit:
  "CredentialsFuncsCache (opt s) reg = Some p \<Longrightarrow> Credential ctx reg s = invoke p ctx reg s"
  by (simp add: Credential_def)

text \<open>One call of the callback: the log grows, and the cache is left alone or gains one entry.\<close>

lemma Credential_step:
  assumes "Credential ctx reg s = (r, s')"
  shows "\<exists>evs. calls s' = calls s @ evs
     \<and> (opt s' = opt s
        \<or> (\<exists>f cred. CredentialsFuncsCache (opt s) reg = None \<and> cred \<noteq> EmptyCredential
             \<and> r = Returns (cred, None)
             \<and> evs \<noteq> [] \<and> last evs = FuncCalled f ctx reg (Returns (cred, None))
             \<and> f \<in> set (CredentialsFuncs (opt s))
             \<and> opt s' = (opt s)\<lparr>CredentialsFuncsCache := (CredentialsFuncsCache (opt s))(reg \<mapsto> f)\<rparr>))"
proof (cases "CredentialsFuncsCache (opt s) reg")
  case (Some p)
  then have "invoke p ctx reg s = (r, s')" using assms by (simp add: Credential_hit)
  then show ?thesis by (auto simp: invoke_opt invoke_calls)
next
  case None
  from Credential_miss_log[OF None assms] obtain evs where
    a: "calls s' = calls s @ evs" and
    b: "prefix (invoked evs) (CredentialsFuncs (opt s))" and
    c: "\<forall>e \<in> set evs. (\<exists>f res. e = FuncCalled f ctx reg res) \<or> (\<exists>res. e = LoginCalled ctx reg res)" and
    e: "evs = [] \<longrightarrow> r = Returns (EmptyCredential, None) \<and> opt s' = opt s" and
    f: "evs \<noteq> [] \<longrightarrow> settles reg (opt s) (last evs) r (opt s')"
    by blast
  show ?thesis
  proof (cases "opt s' = opt s")
    case True
    then show ?thesis using a by blast
  next
    case False
    then have ne: "evs \<noteq> []" using e by blast
    with f have "settles reg (opt s) (last evs) r (opt s')" by blast
    from settles_cache[OF this] False obtain f0 c0 h0 cred where
      l: "last evs = FuncCalled f0 c0 h0 (Returns (cred, None))" and
      cr: "cred \<noteq> EmptyCredential" and r: "r = Returns (cred, None)" and
      o: "opt s' = (opt s)\<lparr>CredentialsFuncsCache := (CredentialsFuncsCache (opt s))(reg \<mapsto> f0)\<rparr>"
      by blast
    have mem: "last evs \<in> set evs" using ne by simp
    with c l have "c0 = ctx" "h0 = reg" by auto
    moreover have "f0 \<in> set (CredentialsFuncs (opt s))"
      using invoked_mem[of f0 c0 h0 _ evs] mem l b by (auto dest: set_mono_prefix)
    ultimately show ?thesis using a None cr r ne l o by blast
  qed
qed

lemma Credential_funcs:
  assumes "Credential ctx reg s = (r, s')"
  shows "CredentialsFuncs (opt s') = CredentialsFuncs (opt s)"
proof -
  from Credential_step[OF assms] have
    "opt s' = opt s \<or> (\<exists>f.
        opt s' = (opt s)\<lparr>CredentialsFuncsCache := (CredentialsFuncsCache (opt s))(reg \<mapsto> f)\<rparr>)"
    by blast
  then show ?thesis by auto
qed

lemma Credential_keeps:
  assumes "Credential ctx reg' s = (r, s')" "CredentialsFuncsCache (opt s) reg = Some p"
  shows "CredentialsFuncsCache (opt s') reg = Some p"
proof -
  from Credential_step[OF assms(1)] have
    "opt s' = opt s \<or> (\<exists>f. CredentialsFuncsCache (opt s) reg' = None
        \<and> opt s' = (opt s)\<lparr>CredentialsFuncsCache := (CredentialsFuncsCache (opt s))(reg' \<mapsto> f)\<rparr>)"
    by blast
  then show ?thesis using assms(2) by auto
qed

lemma run_keeps:
  "CredentialsFuncsCache (opt s) reg = Some p \<Longrightarrow> CredentialsFuncsCache (opt (run steps s)) reg = Some p"
proof (induction steps s rule: run.induct)
  case (2 ctx reg' rest s)
  then show ?case
    using Credential_keeps[of ctx reg' s "fst (Credential ctx reg' s)" "snd (Credential ctx reg' s)"]
    by simp
qed simp_all

lemma run_append: "run (xs @ ys) s = run ys (run xs s)"
  by (induction xs s rule: run.induct) simp_all

lemma run_calls: "set (calls s) \<subseteq> set (calls (run steps s))"
proof (induction steps s rule: run.induct)
  case (2 ctx reg rest s)
  obtain r s' where c: "Credential ctx reg s = (r, s')" by (cases "Credential ctx reg s")
  from Credential_step[OF c] have "set (calls s) \<subseteq> set (calls s')" by auto
  then show ?case using 2 c by auto
qed simp_all

lemma Credential_miss_success:
  assumes miss: "CredentialsFuncsCache (opt s) reg = None"
    and run: "Credential ctx reg s = (Returns (cred, None), s')"
    and got: "cred \<noteq> EmptyCredential"
  shows "\<exists>evs f. calls s' = calls s @ evs \<and> evs \<noteq> []
     \<and> last evs = FuncCalled f ctx reg (Returns (cred, None))
     \<and> f \<in> set (CredentialsFuncs (opt s))
     \<and> opt s' = (opt s)\<lparr>CredentialsFuncsCache := (CredentialsFuncsCache (opt s))(reg \<mapsto> f)\<rparr>"
proof -
  from Credential_miss_log[OF miss run] obtain evs where
    a: "calls s' = calls s @ evs" and
    b: "prefix (invoked evs) (CredentialsFuncs (opt s))" and
    c: "\<forall>e \<in> set evs. (\<exists>f res. e = FuncCalled f ctx reg res) \<or> (\<exists>res. e = LoginCalled ctx reg res)" and
    e: "evs = [] \<longrightarrow> Returns (cred, None) = Returns (EmptyCredential, None) \<and> opt s' = opt s" and
    f: "evs \<noteq> [] \<longrightarrow> settles reg (opt s) (last evs) (Returns (cred, None)) (opt s')"
    by blast
  have ne: "evs \<noteq> []" using e got by auto
  with f have "settles reg (opt s) (last evs) (Returns (cred, None)) (opt s')" by blast
  from settles_success[OF this got] obtain f0 c0 h0 where
    l: "last evs = FuncCalled f0 c0 h0 (Returns (cred, None))" and
    o: "opt s' = (opt s)\<lparr>CredentialsFuncsCache := (CredentialsFuncsCache (opt s))(reg \<mapsto> f0)\<rparr>"
    by blast
  have mem: "last evs \<in> set evs" using ne by simp
  with c l have "c0 = ctx" "h0 = reg" by auto
  moreover have "f0 \<in> set (CredentialsFuncs (opt s))"
    using invoked_mem[of f0 c0 h0 _ evs] mem l b by (auto dest: set_mono_prefix)
  ultimately show ?thesis using a ne l o by blast
qed

lemma settles_passes:
  "settles reg c ev r c' \<Longrightarrow> passes ev \<Longrightarrow> r = Returns (EmptyCredential, None) \<and> c' = c"
  by (cases ev) (auto simp: settles_def)

lemma settles_error:
  "settles reg c (FuncCalled f ctx h (Returns (cred, Some e))) r c' \<Longrightarrow>
     r = Returns (EmptyCredential, Some e) \<and> c' = c"
  by (simp add: settles_def)

lemma settles_found:
  "settles reg c (FuncCalled f ctx h (Returns (cred, None))) r c' \<Longrightarrow> cred \<noteq> EmptyCredential \<Longrightarrow>
     r = Returns (cred, None)"
  by (simp add: settles_def)

text \<open>Over a run: an entry of the cache was there at the start or a call of the run earned it.\<close>

lemma run_justified:
  "CredentialsFuncsCache (opt (run steps s)) reg = Some p \<Longrightarrow>
     CredentialsFuncsCache (opt s) reg = Some p
     \<or> (\<exists>ctx cred. Call ctx reg \<in> set steps \<and> cred \<noteq> EmptyCredential
          \<and> FuncCalled p ctx reg (Returns (cred, None)) \<in> set (calls (run steps s)))"
proof (induction steps s rule: run.induct)
  case (1 s)
  then show ?case by simp
next
  case (2 ctx' reg' rest s)
  obtain r s' where c: "Credential ctx' reg' s = (r, s')" by (cases "Credential ctx' reg' s")
  then have rn: "run (Call ctx' reg' # rest) s = run rest s'" by simp
  from 2 c have "CredentialsFuncsCache (opt s') reg = Some p
     \<or> (\<exists>ctx cred. Call ctx reg \<in> set rest \<and> cred \<noteq> EmptyCredential
          \<and> FuncCalled p ctx reg (Returns (cred, None)) \<in> set (calls (run rest s')))"
    by simp
  then show ?case
  proof
    assume later: "\<exists>ctx cred. Call ctx reg \<in> set rest \<and> cred \<noteq> EmptyCredential
          \<and> FuncCalled p ctx reg (Returns (cred, None)) \<in> set (calls (run rest s'))"
    then show ?thesis unfolding rn by auto
  next
    assume now: "CredentialsFuncsCache (opt s') reg = Some p"
    from Credential_step[OF c] obtain evs where
      a: "calls s' = calls s @ evs" and
      o: "opt s' = opt s
        \<or> (\<exists>f cred. CredentialsFuncsCache (opt s) reg' = None \<and> cred \<noteq> EmptyCredential
             \<and> r = Returns (cred, None)
             \<and> evs \<noteq> [] \<and> last evs = FuncCalled f ctx' reg' (Returns (cred, None))
             \<and> f \<in> set (CredentialsFuncs (opt s))
             \<and> opt s' = (opt s)\<lparr>CredentialsFuncsCache := (CredentialsFuncsCache (opt s))(reg' \<mapsto> f)\<rparr>)"
      by (elim exE conjE)
    show ?thesis
    proof (cases "CredentialsFuncsCache (opt s) reg = Some p")
      case True
      then show ?thesis by simp
    next
      case False
      with now o obtain f cred where
        cr: "cred \<noteq> EmptyCredential" and ne: "evs \<noteq> []" and
        l: "last evs = FuncCalled f ctx' reg' (Returns (cred, None))" and
        o': "opt s' = (opt s)\<lparr>CredentialsFuncsCache := (CredentialsFuncsCache (opt s))(reg' \<mapsto> f)\<rparr>"
        by auto
      have "reg' = reg \<and> f = p" using now False o' by (auto split: if_splits)
      moreover have "last evs \<in> set (calls s')" using a ne by simp
      then have "last evs \<in> set (calls (run rest s'))" using run_calls by blast
      ultimately have "Call ctx' reg \<in> set (Call ctx' reg' # rest) \<and> cred \<noteq> EmptyCredential
          \<and> FuncCalled p ctx' reg (Returns (cred, None)) \<in> set (calls (run (Call ctx' reg' # rest) s))"
        using cr l rn by simp
      then show ?thesis by blast
    qed
  qed
next
  case (3 g rest s)
  then show ?case by simp
qed

lemma package_option_cache:
  "package_option o1 \<Longrightarrow> CredentialsFuncsCache (o1 c) = CredentialsFuncsCache c"
  by (induction rule: package_option.induct)
    (simp_all add: WithAutoLogin_def WithOAuthCredentials_def WithGcpCredentials_def
      WithCredentials_def WithStore_def WithClientTokenCache_def WithInsecure_def)

lemma applyOptions_cache:
  "\<forall>o1 \<in> set options. package_option o1 \<Longrightarrow>
     CredentialsFuncsCache (applyOptions options c) = CredentialsFuncsCache c"
  by (induction options arbitrary: c) (simp_all add: package_option_cache)

lemma start_NewClient:
  "opt (start (NewClient options) w) = applyOptions options newOptions"
  "calls (start (NewClient options) w) = []"
  "world (start (NewClient options) w) = w"
  by (simp_all add: start_def NewClient_def SetUserAgent_def Let_def)

text \<open>
  The options of the package only ever append to the list of credential
  functions, so the list of a client is the options' functions in the order of the
  options; no call of the callback changes it.
\<close>

lemma package_option_funcs:
  "package_option o1 \<Longrightarrow> CredentialsFuncs (o1 c) = CredentialsFuncs c @ provided o1"
  by (induction rule: package_option.induct)
    (simp_all add: provided_def newOptions_def WithAutoLogin_def WithOAuthCredentials_def
      WithGcpCredentials_def WithCredentials_def WithStore_def WithClientTokenCache_def
      WithInsecure_def)

lemma applyOptions_funcs:
  "\<forall>o1 \<in> set options. package_option o1 \<Longrightarrow>
     CredentialsFuncs (applyOptions options c) = CredentialsFuncs c @ concat (map provided options)"
  by (induction options arbitrary: c) (simp_all add: package_option_funcs)

lemma run_funcs: "CredentialsFuncs (opt (run steps s)) = CredentialsFuncs (opt s)"
proof (induction steps s rule: run.induct)
  case (2 ctx reg rest s)
  obtain r s' where c: "Credential ctx reg s = (r, s')" by (cases "Credential ctx reg s")
  then show ?case using 2 Credential_funcs[OF c] by simp
qed simp_all

lemma NewClient_funcs:
  assumes "\<forall>o1 \<in> set options. package_option o1"
  shows "CredentialsFuncs (opt (run steps (start (NewClient options) w)))
     = concat (map provided options)"
  using applyOptions_funcs[OF assms, of newOptions]
  by (simp add: run_funcs start_NewClient newOptions_def)

text \<open>What the options of the package do to the \<open>Insecure\<close> flag.\<close>

lemma skipsVerification_NewClient:
  "skipsVerification (NewClient options) = Insecure (applyOptions options newOptions)"
  by (simp add: skipsVerification_def NewClient_def SetUserAgent_def newTransport_def Let_def)

lemma WithInsecure_sets: "o1 = WithInsecure \<Longrightarrow> Insecure (o1 c)"
  by (simp add: WithInsecure_def)

lemma not_WithInsecure: "\<not> Insecure (o1 newOptions) \<Longrightarrow> o1 \<noteq> WithInsecure"
  using WithInsecure_sets by blast

lemma package_option_Insecure:
  "package_option (o1 :: 'x Options \<Rightarrow> 'x Options) \<Longrightarrow>
     Insecure (o1 c) = (Insecure c \<or> o1 = WithInsecure)"
proof (induction rule: package_option.induct)
  case (1 handler)
  have "WithAutoLogin handler \<noteq> WithInsecure"
    by (rule not_WithInsecure) (simp add: WithAutoLogin_def newOptions_def)
  moreover have "Insecure (WithAutoLogin handler c) = Insecure c"
    by (simp add: WithAutoLogin_def)
  ultimately show ?case by simp
next
  case (2 f)
  have "WithOAuthCredentials f \<noteq> WithInsecure"
    by (rule not_WithInsecure) (simp add: WithOAuthCredentials_def newOptions_def)
  moreover have "Insecure (WithOAuthCredentials f c) = Insecure c"
    by (simp add: WithOAuthCredentials_def)
  ultimately show ?case by simp
next
  case (3 f)
  have "WithGcpCredentials f \<noteq> WithInsecure"
    by (rule not_WithInsecure) (simp add: WithGcpCredentials_def newOptions_def)
  moreover have "Insecure (WithGcpCredentials f c) = Insecure c"
    by (simp add: WithGcpCredentials_def)
  ultimately show ?case by simp
next
  case (4 cred)
  have "WithCredentials cred \<noteq> (WithInsecure :: 'x Options \<Rightarrow> 'x Options)"
    by (rule not_WithInsecure) (simp add: WithCredentials_def newOptions_def)
  moreover have "Insecure (WithCredentials cred c) = Insecure c"
    by (simp add: WithCredentials_def)
  ultimately show ?case by simp
next
  case (5 f)
  have "WithStore f \<noteq> WithInsecure"
    by (rule not_WithInsecure) (simp add: WithStore_def newOptions_def)
  moreover have "Insecure (WithStore f c) = Insecure c"
    by (simp add: WithStore_def)
  ultimately show ?case by simp
next
  case (6 cache)
  have "WithClientTokenCache cache \<noteq> (WithInsecure :: 'x Options \<Rightarrow> 'x Options)"
    by (rule not_WithInsecure) (simp add: WithClientTokenCache_def newOptions_def)
  moreover have "Insecure (WithClientTokenCache cache c) = Insecure c"
    by (simp add: WithClientTokenCache_def)
  ultimately show ?case by simp
next
  case 7
  show ?case by (simp add: WithInsecure_sets)
qed

lemma applyOptions_Insecure:
  "\<forall>o1 \<in> set options. package_option o1 \<Longrightarrow>
     Insecure (applyOptions options c) = (Insecure c \<or> WithInsecure \<in> set options)"
  by (induction options arbitrary: c) (auto simp: package_option_Insecure)

text \<open>With a \<open>nil\<close> pointer the function of \<open>WithCredentials\<close> panics when called.\<close>

lemma staticCredential_nil: "staticCredential None ctx reg w = (Panics, w)"
  by (simp add: staticCredential_def)

section \<open>The example configurations, evaluated\<close>

lemmas scenario_defs = start_def NewClient_def SetUserAgent_def newOptions_def
  WithStore_def WithOAuthCredentials_def WithGcpCredentials_def WithCredentials_def
  WithAutoLogin_def WithInsecure_def WithClientTokenCache_def

lemma scenarioA_eq:
  "scenarioA = \<lparr>opt = \<lparr>Ctx = None, CredentialsFuncsCache = Map.empty,
      CredentialsFuncs = [EmptyCredentialFunc, oauthT1, diskFails],
      AutoLoginHandler = None, ClientTokenCache = None, Insecure = False\<rparr>,
    world = exampleWorld, calls = []\<rparr>"
  by (simp add: scenarioA_def scenario_defs)

lemma tokenT1_not_empty: "tokenT1 \<noteq> EmptyCredential"
  by (simp add: tokenT1_def EmptyCredential_def)

lemma scenarioA_first:
  "Credential (Context 0) ''reg.example.com'' scenarioA = (Returns (tokenT1, None), scenarioA1)"
  by (simp add: Credential_def scenarioA_eq scenarioA1_def invoke_def EmptyCredentialFunc_def
      oauthT1_def tokenT1_not_empty cache_put_def)

lemma scenarioC_eq:
  "scenarioC = \<lparr>opt = \<lparr>Ctx = None, CredentialsFuncsCache = Map.empty,
      CredentialsFuncs = [EmptyCredentialFunc, diskFails, oauthT1],
      AutoLoginHandler = None, ClientTokenCache = None, Insecure = False\<rparr>,
    world = exampleWorld, calls = []\<rparr>"
  by (simp add: scenarioC_def scenario_defs)

lemma scenarioC_first:
  "Credential (Context 0) ''y.io'' scenarioC
     = (Returns (EmptyCredential, Some (Error ''disk read failed'')), scenarioC1)"
  by (simp add: Credential_def scenarioC_eq scenarioC1_def invoke_def EmptyCredentialFunc_def
      diskFails_def)

lemma scenarioLoginFails_eq:
  "scenarioLoginFails = \<lparr>opt = \<lparr>Ctx = None, CredentialsFuncsCache = Map.empty,
      CredentialsFuncs = [EmptyCredentialFunc],
      AutoLoginHandler = Some loginFails, ClientTokenCache = None, Insecure = False\<rparr>,
    world = exampleWorld, calls = []\<rparr>"
  by (simp add: scenarioLoginFails_def scenario_defs)

lemma scenarioAnonymous_eq:
  "scenarioAnonymous = \<lparr>opt = \<lparr>Ctx = None, CredentialsFuncsCache = Map.empty,
      CredentialsFuncs = [EmptyCredentialFunc, staticCredential (Some 1)],
      AutoLoginHandler = Some loginOk, ClientTokenCache = None, Insecure = False\<rparr>,
    world = exampleWorld, calls = []\<rparr>"
  by (simp add: scenarioAnonymous_def scenario_defs)

lemma scenarioAnonymous_first:
  "Credential (Context 0) ''reg.example.com'' scenarioAnonymous
     = (Returns (EmptyCredential, None), scenarioAnonymous1)"
  by (simp add: Credential_def scenarioAnonymous_eq scenarioAnonymous1_def invoke_def Login_def
      loginOk_def EmptyCredentialFunc_def staticCredential_def exampleWorld_def)

lemma scenarioB_eq:
  "scenarioB = \<lparr>opt = \<lparr>Ctx = None, CredentialsFuncsCache = Map.empty,
      CredentialsFuncs = [staticCredential (Some 0)],
      AutoLoginHandler = None, ClientTokenCache = None, Insecure = False\<rparr>,
    world = exampleWorld, calls = []\<rparr>"
  by (simp add: scenarioB_def scenario_defs)

section \<open>The claims\<close>

text \<open>
  C1 (cache short-circuit). When a call of the callback for a host returns a
  non-empty credential and no error, the cache then holds, for that host, the
  function \<open>p\<close> whose call ended that run (one of the configured functions when
  the host was not cached before). Whatever calls and outside changes follow,
  every later call for the host calls \<open>p\<close> and nothing else, with no login, and
  returns exactly what \<open>p\<close> returns (credential, error or panic), leaving
  \<open>Options\<close> as it was.
\<close>

theorem cache_short_circuit:
  assumes first: "Credential ctx0 reg s0 = (Returns (cred, None), s1)"
    and got: "cred \<noteq> EmptyCredential"
  shows "\<exists>p. CredentialsFuncsCache (opt s1) reg = Some p
     \<and> last (calls s1) = FuncCalled p ctx0 reg (Returns (cred, None))
     \<and> (CredentialsFuncsCache (opt s0) reg = None \<longrightarrow> p \<in> set (CredentialsFuncs (opt s0)))
     \<and> (\<forall>steps ctx s r w. s = run steps s1 \<and> p ctx reg (world s) = (r, w) \<longrightarrow>
           Credential ctx reg s
             = (r, s\<lparr>world := w, calls := calls s @ [FuncCalled p ctx reg r]\<rparr>))"
proof -
  have "\<exists>p. CredentialsFuncsCache (opt s1) reg = Some p
     \<and> last (calls s1) = FuncCalled p ctx0 reg (Returns (cred, None))
     \<and> (CredentialsFuncsCache (opt s0) reg = None \<longrightarrow> p \<in> set (CredentialsFuncs (opt s0)))"
  proof (cases "CredentialsFuncsCache (opt s0) reg")
    case (Some q)
    then have i: "invoke q ctx0 reg s0 = (Returns (cred, None), s1)"
      using first by (simp add: Credential_hit)
    have "CredentialsFuncsCache (opt s1) reg = Some q"
      using invoke_opt[OF i] Some by simp
    moreover have "last (calls s1) = FuncCalled q ctx0 reg (Returns (cred, None))"
      using invoke_calls[OF i] by simp
    ultimately show ?thesis using Some by simp
  next
    case None
    from Credential_miss_success[OF None first got] obtain evs f where
      a: "calls s1 = calls s0 @ evs" and ne: "evs \<noteq> []" and
      l: "last evs = FuncCalled f ctx0 reg (Returns (cred, None))" and
      m: "f \<in> set (CredentialsFuncs (opt s0))" and
      o: "opt s1 = (opt s0)\<lparr>CredentialsFuncsCache := (CredentialsFuncsCache (opt s0))(reg \<mapsto> f)\<rparr>"
      by blast
    have "CredentialsFuncsCache (opt s1) reg = Some f" by (simp add: o)
    moreover have "last (calls s1) = FuncCalled f ctx0 reg (Returns (cred, None))"
      using a ne l by simp
    ultimately show ?thesis using m by simp
  qed
  then obtain p where plm: "CredentialsFuncsCache (opt s1) reg = Some p
     \<and> last (calls s1) = FuncCalled p ctx0 reg (Returns (cred, None))
     \<and> (CredentialsFuncsCache (opt s0) reg = None \<longrightarrow> p \<in> set (CredentialsFuncs (opt s0)))"
    by (elim exE)
  then have p: "CredentialsFuncsCache (opt s1) reg = Some p"
    and l: "last (calls s1) = FuncCalled p ctx0 reg (Returns (cred, None))"
    and m: "CredentialsFuncsCache (opt s0) reg = None \<longrightarrow> p \<in> set (CredentialsFuncs (opt s0))"
    by simp_all
  have later: "Credential ctx reg s = (r, s\<lparr>world := w, calls := calls s @ [FuncCalled p ctx reg r]\<rparr>)"
    if "s = run steps s1 \<and> p ctx reg (world s) = (r, w)" for steps ctx s r w
  proof -
    from that have s: "s = run steps s1" by (rule conjunct1)
    from that have pw: "p ctx reg (world s) = (r, w)" by (rule conjunct2)
    have "CredentialsFuncsCache (opt s) reg = Some p" unfolding s using p by (rule run_keeps)
    then show ?thesis using pw by (simp add: Credential_hit invoke_eq)
  qed
  show ?thesis
  proof (intro exI[of _ p] conjI allI impI)
    show "CredentialsFuncsCache (opt s1) reg = Some p" by (rule p)
    show "last (calls s1) = FuncCalled p ctx0 reg (Returns (cred, None))" by (rule l)
    show "p \<in> set (CredentialsFuncs (opt s0))" if "CredentialsFuncsCache (opt s0) reg = None"
      using m that by simp
    show "Credential ctx reg s = (r, s\<lparr>world := w, calls := calls s @ [FuncCalled p ctx reg r]\<rparr>)"
      if "s = run steps s1 \<and> p ctx reg (world s) = (r, w)" for steps ctx s r w
      using later[OF that] .
  qed
qed

theorem cache_short_circuit_witness:
  "Credential (Context 0) ''reg.example.com'' scenarioA = (Returns (tokenT1, None), scenarioA1)
   \<and> tokenT1 \<noteq> EmptyCredential
   \<and> CredentialsFuncsCache (opt scenarioA1) ''reg.example.com'' = Some oauthT1
   \<and> Credential (Context 1) ''reg.example.com'' (run laterSteps scenarioA1)
      = (Returns (tokenT1, None),
         (run laterSteps scenarioA1)
           \<lparr>calls := calls (run laterSteps scenarioA1)
              @ [FuncCalled oauthT1 (Context 1) ''reg.example.com'' (Returns (tokenT1, None))]\<rparr>)"
proof -
  let ?s = "run laterSteps scenarioA1"
  have h1: "Credential (Context 0) ''reg.example.com'' scenarioA = (Returns (tokenT1, None), scenarioA1)"
    by (rule scenarioA_first)
  have h2: "tokenT1 \<noteq> EmptyCredential" by (rule tokenT1_not_empty)
  have c: "CredentialsFuncsCache (opt scenarioA1) ''reg.example.com'' = Some oauthT1"
    by (simp add: scenarioA1_def)
  from cache_short_circuit[OF h1 h2] obtain p where
    p: "CredentialsFuncsCache (opt scenarioA1) ''reg.example.com'' = Some p" and
    later: "\<forall>steps ctx s r w. s = run steps scenarioA1 \<and> p ctx ''reg.example.com'' (world s) = (r, w) \<longrightarrow>
           Credential ctx ''reg.example.com'' s
             = (r, s\<lparr>world := w, calls := calls s @ [FuncCalled p ctx ''reg.example.com'' r]\<rparr>)"
    by (elim exE conjE)
  have pe: "p = oauthT1" using p c by simp
  have "oauthT1 (Context 1) ''reg.example.com'' (world ?s) = (Returns (tokenT1, None), world ?s)"
    by (simp add: oauthT1_def)
  with later[unfolded pe, rule_format, of ?s laterSteps "Context 1" "Returns (tokenT1, None)" "world ?s"]
  have "Credential (Context 1) ''reg.example.com'' ?s
      = (Returns (tokenT1, None), ?s\<lparr>world := world ?s,
           calls := calls ?s @ [FuncCalled oauthT1 (Context 1) ''reg.example.com'' (Returns (tokenT1, None))]\<rparr>)"
    by blast
  then show ?thesis using h1 h2 c by simp
qed

text \<open>
  C3 (fail-fast). On a host that is not cached, when some credential function
  called in the run returns a non-\<open>nil\<close> error, the callback returns
  \<open>auth.EmptyCredential\<close> with that error, that call is the last of the run (no
  function is called after it), and \<open>Options\<close>, so the cache, is unchanged: the
  host still has no entry.
\<close>

theorem fail_fast:
  assumes miss: "CredentialsFuncsCache (opt s) reg = None"
    and run: "Credential ctx reg s = (r, s')"
    and idx: "i < length (new_calls s s')"
    and err: "new_calls s s' ! i = FuncCalled f c h (Returns (cred, Some e))"
  shows "r = Returns (EmptyCredential, Some e)
     \<and> Suc i = length (new_calls s s')
     \<and> opt s' = opt s
     \<and> CredentialsFuncsCache (opt s') reg = None"
proof -
  from Credential_miss_log[OF miss run] obtain evs where
    a: "calls s' = calls s @ evs" and
    d: "\<forall>e \<in> set (butlast evs). passes e" and
    f: "evs \<noteq> [] \<longrightarrow> settles reg (opt s) (last evs) r (opt s')"
    by (elim exE conjE)
  have n: "new_calls s s' = evs" using a by (rule new_calls_append)
  have i: "i < length evs" and e: "evs ! i = FuncCalled f c h (Returns (cred, Some e))"
    using idx err n by simp_all
  have "\<not> passes (evs ! i)" by (simp add: e)
  from stops_at_last[OF d i this] have l: "Suc i = length evs" and "last evs = evs ! i"
    by simp_all
  moreover have "evs \<noteq> []" using i by auto
  ultimately have "settles reg (opt s) (FuncCalled f c h (Returns (cred, Some e))) r (opt s')"
    using f e by simp
  from settles_error[OF this] show ?thesis using l n miss by simp
qed

theorem fail_fast_witness:
  "CredentialsFuncsCache (opt scenarioC) ''y.io'' = None
   \<and> Credential (Context 0) ''y.io'' scenarioC
       = (Returns (EmptyCredential, Some (Error ''disk read failed'')), scenarioC1)
   \<and> 1 < length (new_calls scenarioC scenarioC1)
   \<and> new_calls scenarioC scenarioC1 ! 1
       = FuncCalled diskFails (Context 0) ''y.io''
           (Returns (EmptyCredential, Some (Error ''disk read failed'')))
   \<and> CredentialsFuncs (opt scenarioC) = [EmptyCredentialFunc, diskFails, oauthT1]
   \<and> length (new_calls scenarioC scenarioC1) = 2
   \<and> opt scenarioC1 = opt scenarioC
   \<and> CredentialsFuncsCache (opt scenarioC1) ''y.io'' = None"
proof -
  have h1: "CredentialsFuncsCache (opt scenarioC) ''y.io'' = None"
    by (simp add: scenarioC_eq)
  have h2: "Credential (Context 0) ''y.io'' scenarioC
       = (Returns (EmptyCredential, Some (Error ''disk read failed'')), scenarioC1)"
    by (rule scenarioC_first)
  have h3: "1 < length (new_calls scenarioC scenarioC1)"
    by (simp add: new_calls_def scenarioC_eq scenarioC1_def)
  have h4: "new_calls scenarioC scenarioC1 ! 1
       = FuncCalled diskFails (Context 0) ''y.io''
           (Returns (EmptyCredential, Some (Error ''disk read failed'')))"
    by (simp add: new_calls_def scenarioC_eq scenarioC1_def)
  have fs: "CredentialsFuncs (opt scenarioC) = [EmptyCredentialFunc, diskFails, oauthT1]"
    by (simp add: scenarioC_eq)
  from fail_fast[OF h1 h2 h3 h4] show ?thesis using h1 h2 h3 h4 fs by simp
qed

text \<open>
  C4 (order preservation). On a host that is not cached, the functions called are
  an initial segment of \<open>opt.CredentialsFuncs\<close> in its order, each called with
  the context and host of the run; every call but the last returned no
  credential and no error; a call that returns a non-empty credential without
  error is the last call and its credential is the result; and if no call
  stopped the run, every configured function was called. The list itself is
  the same after the run. That order is the callers': for a client built by
  \<open>NewClient\<close> from options of this package, at any point of its life, the list
  is the functions the options contribute, in the order the options were given
  (\<open>WithOAuthCredentials\<close>, \<open>WithGcpCredentials\<close>, \<open>WithCredentials\<close> and
  \<open>WithStore\<close> contribute their one function, the other options none), so the
  functions called are an initial segment of that.
\<close>

theorem order_preservation:
  assumes miss: "CredentialsFuncsCache (opt (s :: 'x State)) reg = None"
    and run: "Credential ctx reg s = (r, s')"
  shows "prefix (invoked (new_calls s s')) (CredentialsFuncs (opt s))
     \<and> (\<forall>e \<in> set (new_calls s s').
           (\<exists>f res. e = FuncCalled f ctx reg res) \<or> (\<exists>res. e = LoginCalled ctx reg res))
     \<and> (\<forall>e \<in> set (butlast (new_calls s s')). passes e)
     \<and> (\<forall>i f c h cred. i < length (new_calls s s')
           \<and> new_calls s s' ! i = FuncCalled f c h (Returns (cred, None)) \<and> cred \<noteq> EmptyCredential
           \<longrightarrow> Suc i = length (new_calls s s') \<and> r = Returns (cred, None))
     \<and> ((\<forall>e \<in> set (new_calls s s'). passes e)
           \<longrightarrow> invoked (new_calls s s') = CredentialsFuncs (opt s))
     \<and> CredentialsFuncs (opt s') = CredentialsFuncs (opt s)
     \<and> (\<forall>options w steps.
           (\<forall>o1 \<in> set options. package_option o1) \<and> s = run steps (start (NewClient options) w)
           \<longrightarrow> CredentialsFuncs (opt s) = concat (map provided options)
             \<and> prefix (invoked (new_calls s s')) (concat (map provided options)))
     \<and> provided (WithAutoLogin handler :: 'x Options \<Rightarrow> 'x Options) = []
     \<and> provided (WithOAuthCredentials oauthStoreCredential :: 'x Options \<Rightarrow> 'x Options)
         = [oauthStoreCredential]
     \<and> provided (WithGcpCredentials GCPCredential :: 'x Options \<Rightarrow> 'x Options) = [GCPCredential]
     \<and> provided (WithCredentials cred0 :: 'x Options \<Rightarrow> 'x Options) = [staticCredential cred0]
     \<and> provided (WithStore storeCredential :: 'x Options \<Rightarrow> 'x Options) = [storeCredential]
     \<and> provided (WithClientTokenCache cache :: 'x Options \<Rightarrow> 'x Options) = []
     \<and> provided (WithInsecure :: 'x Options \<Rightarrow> 'x Options) = []"
proof -
  from Credential_miss_log[OF miss run] obtain evs where
    a: "calls s' = calls s @ evs" and
    b: "prefix (invoked evs) (CredentialsFuncs (opt s))" and
    c: "\<forall>e \<in> set evs. (\<exists>f res. e = FuncCalled f ctx reg res) \<or> (\<exists>res. e = LoginCalled ctx reg res)" and
    d: "\<forall>e \<in> set (butlast evs). passes e" and
    f: "evs \<noteq> [] \<longrightarrow> settles reg (opt s) (last evs) r (opt s')" and
    g: "(\<forall>e \<in> set evs. passes e) \<longrightarrow> invoked evs = CredentialsFuncs (opt s)"
    by (elim exE conjE)
  have n: "new_calls s s' = evs" using a by (rule new_calls_append)
  have found: "Suc i = length evs \<and> r = Returns (cred, None)"
    if "i < length evs \<and> evs ! i = FuncCalled f0 c0 h0 (Returns (cred, None)) \<and> cred \<noteq> EmptyCredential"
    for i f0 c0 h0 cred
  proof -
    from that have i: "i < length evs" and e: "evs ! i = FuncCalled f0 c0 h0 (Returns (cred, None))"
      and ne: "cred \<noteq> EmptyCredential" by blast+
    have "\<not> passes (evs ! i)" using ne by (simp add: e)
    from stops_at_last[OF d i this] have l: "Suc i = length evs" and "last evs = evs ! i"
      by simp_all
    moreover have "evs \<noteq> []" using i by auto
    ultimately have "settles reg (opt s) (FuncCalled f0 c0 h0 (Returns (cred, None))) r (opt s')"
      using f e by simp
    from settles_found[OF this ne] show ?thesis using l by simp
  qed
  have k: "\<forall>i f c h cred. i < length evs
           \<and> evs ! i = FuncCalled f c h (Returns (cred, None)) \<and> cred \<noteq> EmptyCredential
           \<longrightarrow> Suc i = length evs \<and> r = Returns (cred, None)"
  proof (intro allI impI)
    fix i f0 c0 h0 cred
    assume "i < length evs \<and> evs ! i = FuncCalled f0 c0 h0 (Returns (cred, None))
        \<and> cred \<noteq> EmptyCredential"
    then show "Suc i = length evs \<and> r = Returns (cred, None)" by (rule found)
  qed
  have same: "CredentialsFuncs (opt s') = CredentialsFuncs (opt s)"
    using run by (rule Credential_funcs)
  have built: "\<forall>options w steps.
           (\<forall>o1 \<in> set options. package_option o1) \<and> s = run steps (start (NewClient options) w)
           \<longrightarrow> CredentialsFuncs (opt s) = concat (map provided options)
             \<and> prefix (invoked evs) (concat (map provided options))"
  proof (intro allI impI)
    fix options :: "('x Options \<Rightarrow> 'x Options) list" and w steps
    assume h: "(\<forall>o1 \<in> set options. package_option o1) \<and> s = run steps (start (NewClient options) w)"
    from h have std: "\<forall>o1 \<in> set options. package_option o1" by (rule conjunct1)
    from h have s: "s = run steps (start (NewClient options) w)" by (rule conjunct2)
    have fs: "CredentialsFuncs (opt s) = concat (map provided options)"
      unfolding s using std by (rule NewClient_funcs)
    with b show "CredentialsFuncs (opt s) = concat (map provided options)
        \<and> prefix (invoked evs) (concat (map provided options))"
      by simp
  qed
  have p1: "provided (WithAutoLogin handler :: 'x Options \<Rightarrow> 'x Options) = []"
    by (simp add: provided_def WithAutoLogin_def newOptions_def)
  have p2: "provided (WithOAuthCredentials oauthStoreCredential :: 'x Options \<Rightarrow> 'x Options)
      = [oauthStoreCredential]"
    by (simp add: provided_def WithOAuthCredentials_def newOptions_def)
  have p3: "provided (WithGcpCredentials GCPCredential :: 'x Options \<Rightarrow> 'x Options) = [GCPCredential]"
    by (simp add: provided_def WithGcpCredentials_def newOptions_def)
  have p4: "provided (WithCredentials cred0 :: 'x Options \<Rightarrow> 'x Options) = [staticCredential cred0]"
    by (simp add: provided_def WithCredentials_def newOptions_def)
  have p5: "provided (WithStore storeCredential :: 'x Options \<Rightarrow> 'x Options) = [storeCredential]"
    by (simp add: provided_def WithStore_def newOptions_def)
  have p6: "provided (WithClientTokenCache cache :: 'x Options \<Rightarrow> 'x Options) = []"
    by (simp add: provided_def WithClientTokenCache_def newOptions_def)
  have p7: "provided (WithInsecure :: 'x Options \<Rightarrow> 'x Options) = []"
    by (simp add: provided_def WithInsecure_def newOptions_def)
  show ?thesis
    unfolding n using b c d k g same built p1 p2 p3 p4 p5 p6 p7 by (intro conjI)
qed

theorem order_preservation_witness:
  "CredentialsFuncsCache (opt scenarioA) ''reg.example.com'' = None
   \<and> Credential (Context 0) ''reg.example.com'' scenarioA = (Returns (tokenT1, None), scenarioA1)
   \<and> list_all package_option
        [WithStore EmptyCredentialFunc, WithOAuthCredentials oauthT1, WithGcpCredentials diskFails]
   \<and> scenarioA = run [] (start (NewClient
        [WithStore EmptyCredentialFunc, WithOAuthCredentials oauthT1, WithGcpCredentials diskFails])
        exampleWorld)
   \<and> concat (map provided
        [WithStore EmptyCredentialFunc, WithOAuthCredentials oauthT1, WithGcpCredentials diskFails])
       = [EmptyCredentialFunc, oauthT1, diskFails]
   \<and> CredentialsFuncs (opt scenarioA) = [EmptyCredentialFunc, oauthT1, diskFails]
   \<and> invoked (new_calls scenarioA scenarioA1) = [EmptyCredentialFunc, oauthT1]
   \<and> prefix (invoked (new_calls scenarioA scenarioA1)) (CredentialsFuncs (opt scenarioA))
   \<and> prefix (invoked (new_calls scenarioA scenarioA1))
        (concat (map provided
          [WithStore EmptyCredentialFunc, WithOAuthCredentials oauthT1, WithGcpCredentials diskFails]))
   \<and> list_all passes (butlast (new_calls scenarioA scenarioA1))"
proof -
  let ?options = "[WithStore EmptyCredentialFunc, WithOAuthCredentials oauthT1,
      WithGcpCredentials diskFails] :: (unit Options \<Rightarrow> unit Options) list"
  have h1: "CredentialsFuncsCache (opt scenarioA) ''reg.example.com'' = None"
    by (simp add: scenarioA_eq)
  have h2: "Credential (Context 0) ''reg.example.com'' scenarioA = (Returns (tokenT1, None), scenarioA1)"
    by (rule scenarioA_first)
  have h3: "\<forall>o1 \<in> set ?options. package_option o1"
    by (simp add: package_option.intros)
  have h4: "scenarioA = run [] (start (NewClient ?options) exampleWorld)"
    by (simp add: scenarioA_def)
  have fs: "CredentialsFuncs (opt scenarioA) = [EmptyCredentialFunc, oauthT1, diskFails]"
    by (simp add: scenarioA_eq)
  have iv: "invoked (new_calls scenarioA scenarioA1) = [EmptyCredentialFunc, oauthT1]"
    by (simp add: new_calls_def scenarioA_eq scenarioA1_def)
  note t = order_preservation[OF h1 h2]
  have loop: "prefix (invoked (new_calls scenarioA scenarioA1)) (CredentialsFuncs (opt scenarioA))"
    by (rule t[THEN conjunct1])
  have quiet: "\<forall>e \<in> set (butlast (new_calls scenarioA scenarioA1)). passes e"
    by (rule t[THEN conjunct2, THEN conjunct2, THEN conjunct1])
  have "(\<forall>o1 \<in> set ?options. package_option o1)
        \<and> scenarioA = run [] (start (NewClient ?options) exampleWorld)
      \<longrightarrow> CredentialsFuncs (opt scenarioA) = concat (map provided ?options)
        \<and> prefix (invoked (new_calls scenarioA scenarioA1)) (concat (map provided ?options))"
    by (rule t[THEN conjunct2, THEN conjunct2, THEN conjunct2, THEN conjunct2, THEN conjunct2,
          THEN conjunct2, THEN conjunct1, THEN spec, THEN spec, THEN spec])
  with h3 h4 have built: "CredentialsFuncs (opt scenarioA) = concat (map provided ?options)"
      and order: "prefix (invoked (new_calls scenarioA scenarioA1)) (concat (map provided ?options))"
    by blast+
  have cc: "concat (map provided ?options) = [EmptyCredentialFunc, oauthT1, diskFails]"
    using built fs by simp
  have la: "list_all package_option ?options" using h3 by (simp add: list_all_iff)
  have lp: "list_all passes (butlast (new_calls scenarioA scenarioA1))"
    using quiet by (simp add: list_all_iff)
  show ?thesis
    using h1 h2 la h4 cc fs iv loop order lp by (intro conjI)
qed

text \<open>
  C5 (auto-login gating). On a host that is not cached, with a login handler set
  whose \<open>Login\<close> returns an error, the callback returns
  \<open>auth.EmptyCredential\<close> with that error; the only call made is the login, so
  no credential function is called.
\<close>

theorem auto_login_gating:
  assumes miss: "CredentialsFuncsCache (opt s) reg = None"
    and on: "AutoLoginHandler (opt s) = Some handler"
    and fails: "handler ctx reg (world s) = (Returns (Some err), w)"
  shows "Credential ctx reg s
     = (Returns (EmptyCredential, Some err),
        s\<lparr>world := w, calls := calls s @ [LoginCalled ctx reg (Returns (Some err))]\<rparr>)
     \<and> invoked (new_calls s (snd (Credential ctx reg s))) = []"
  using assms by (simp add: Credential_def Login_def new_calls_def)

theorem auto_login_gating_witness:
  "CredentialsFuncsCache (opt scenarioLoginFails) ''reg.example.com'' = None
   \<and> AutoLoginHandler (opt scenarioLoginFails) = Some loginFails
   \<and> loginFails (Context 0) ''reg.example.com'' (world scenarioLoginFails)
       = (Returns (Some (Error ''login failed'')), exampleWorld)
   \<and> CredentialsFuncs (opt scenarioLoginFails) = [EmptyCredentialFunc]
   \<and> Credential (Context 0) ''reg.example.com'' scenarioLoginFails
       = (Returns (EmptyCredential, Some (Error ''login failed'')),
          scenarioLoginFails\<lparr>world := exampleWorld,
            calls := calls scenarioLoginFails
              @ [LoginCalled (Context 0) ''reg.example.com'' (Returns (Some (Error ''login failed'')))]\<rparr>)"
proof -
  have h1: "CredentialsFuncsCache (opt scenarioLoginFails) ''reg.example.com'' = None"
    by (simp add: scenarioLoginFails_eq)
  have h2: "AutoLoginHandler (opt scenarioLoginFails) = Some loginFails"
    by (simp add: scenarioLoginFails_eq)
  have h3: "loginFails (Context 0) ''reg.example.com'' (world scenarioLoginFails)
       = (Returns (Some (Error ''login failed'')), exampleWorld)"
    by (simp add: scenarioLoginFails_eq loginFails_def)
  have fs: "CredentialsFuncs (opt scenarioLoginFails) = [EmptyCredentialFunc]"
    by (simp add: scenarioLoginFails_eq)
  from auto_login_gating[OF h1 h2 h3] show ?thesis using h1 h2 h3 fs by simp
qed

text \<open>
  C6 (anonymous fallback). As stated the claim fails: with a login handler whose
  \<open>Login\<close> fails, the single configured function is one that always returns
  no credential and no error, yet the callback returns the login's error.
\<close>

theorem anonymous_fallback_counterexample:
  "CredentialsFuncsCache (opt scenarioLoginFails) ''reg.example.com'' = None
   \<and> CredentialsFuncs (opt scenarioLoginFails) = [EmptyCredentialFunc]
   \<and> EmptyCredentialFunc (Context 0) ''reg.example.com'' exampleWorld
       = (Returns (EmptyCredential, None), exampleWorld)
   \<and> fst (Credential (Context 0) ''reg.example.com'' scenarioLoginFails)
       = Returns (EmptyCredential, Some (Error ''login failed''))
   \<and> fst (Credential (Context 0) ''reg.example.com'' scenarioLoginFails)
       \<noteq> Returns (EmptyCredential, None)
   \<and> invoked (new_calls scenarioLoginFails
         (snd (Credential (Context 0) ''reg.example.com'' scenarioLoginFails))) = []"
  by (simp add: scenarioLoginFails_eq Credential_def Login_def loginFails_def EmptyCredentialFunc_def
      new_calls_def)

text \<open>
  C6, amended. On a host that is not cached, if every call the run makes lets it
  go on (the login, when a handler is set, returns \<open>nil\<close>, and each credential
  function returns \<open>auth.EmptyCredential\<close> and \<open>nil\<close>), then every
  configured function has been called, the callback returns
  \<open>auth.EmptyCredential\<close> and \<open>nil\<close>, and \<open>Options\<close> is unchanged: no entry
  is made for the host.
\<close>

theorem anonymous_fallback:
  assumes miss: "CredentialsFuncsCache (opt s) reg = None"
    and run: "Credential ctx reg s = (r, s')"
    and quiet: "\<forall>e \<in> set (new_calls s s'). passes e"
  shows "r = Returns (EmptyCredential, None)
     \<and> opt s' = opt s
     \<and> CredentialsFuncsCache (opt s') reg = None
     \<and> invoked (new_calls s s') = CredentialsFuncs (opt s)"
proof -
  from Credential_miss_log[OF miss run] obtain evs where
    a: "calls s' = calls s @ evs" and
    e: "evs = [] \<longrightarrow> r = Returns (EmptyCredential, None) \<and> opt s' = opt s" and
    f: "evs \<noteq> [] \<longrightarrow> settles reg (opt s) (last evs) r (opt s')" and
    g: "(\<forall>e \<in> set evs. passes e) \<longrightarrow> invoked evs = CredentialsFuncs (opt s)"
    by (elim exE conjE)
  have n: "new_calls s s' = evs" using a by (rule new_calls_append)
  have q: "\<forall>e \<in> set evs. passes e" using quiet n by simp
  have "r = Returns (EmptyCredential, None) \<and> opt s' = opt s"
  proof (cases "evs = []")
    case True
    then show ?thesis using e by simp
  next
    case False
    then have "settles reg (opt s) (last evs) r (opt s')" and "passes (last evs)"
      using f q by simp_all
    then show ?thesis by (rule settles_passes)
  qed
  then show ?thesis using g q n miss by simp
qed

theorem anonymous_fallback_witness:
  "CredentialsFuncsCache (opt scenarioAnonymous) ''reg.example.com'' = None
   \<and> Credential (Context 0) ''reg.example.com'' scenarioAnonymous
       = (Returns (EmptyCredential, None), scenarioAnonymous1)
   \<and> list_all passes (new_calls scenarioAnonymous scenarioAnonymous1)
   \<and> length (new_calls scenarioAnonymous scenarioAnonymous1) = 3
   \<and> opt scenarioAnonymous1 = opt scenarioAnonymous
   \<and> CredentialsFuncsCache (opt scenarioAnonymous1) ''reg.example.com'' = None
   \<and> invoked (new_calls scenarioAnonymous scenarioAnonymous1) = CredentialsFuncs (opt scenarioAnonymous)"
proof -
  have h1: "CredentialsFuncsCache (opt scenarioAnonymous) ''reg.example.com'' = None"
    by (simp add: scenarioAnonymous_eq)
  have h2: "Credential (Context 0) ''reg.example.com'' scenarioAnonymous
       = (Returns (EmptyCredential, None), scenarioAnonymous1)"
    by (rule scenarioAnonymous_first)
  have nc: "new_calls scenarioAnonymous scenarioAnonymous1 = calls scenarioAnonymous1"
    by (simp add: new_calls_def scenarioAnonymous_eq)
  have h3: "\<forall>e \<in> set (new_calls scenarioAnonymous scenarioAnonymous1). passes e"
    unfolding nc by (simp add: scenarioAnonymous1_def)
  have ln: "length (new_calls scenarioAnonymous scenarioAnonymous1) = 3"
    unfolding nc by (simp add: scenarioAnonymous1_def)
  from anonymous_fallback[OF h1 h2 h3] show ?thesis using h1 h2 h3 ln by (simp add: list_all_iff)
qed

text \<open>
  C7 (cache invariant). For a client built by \<open>NewClient\<close> from options of this
  package, after any sequence of calls of the callback and outside changes: if
  the cache maps a host to a function \<open>p\<close>, then one of the calls was for that
  host and in it \<open>p\<close> was called for that host and returned a non-empty
  credential and no error; and the entry stays, with the same function, whatever
  follows. That a host has at most one entry is the cache being a map.
\<close>

theorem cache_invariant:
  assumes std: "\<forall>o1 \<in> set options. package_option o1"
  shows "\<forall>steps reg p.
     CredentialsFuncsCache (opt (run steps (start (NewClient options) w))) reg = Some p \<longrightarrow>
       (\<exists>ctx cred. Call ctx reg \<in> set steps \<and> cred \<noteq> EmptyCredential
          \<and> FuncCalled p ctx reg (Returns (cred, None))
               \<in> set (calls (run steps (start (NewClient options) w))))
       \<and> (\<forall>more. CredentialsFuncsCache (opt (run (steps @ more) (start (NewClient options) w))) reg
              = Some p)"
proof (intro allI impI conjI)
  fix steps reg p more
  let ?s0 = "start (NewClient options) w"
  assume c: "CredentialsFuncsCache (opt (run steps ?s0)) reg = Some p"
  have "CredentialsFuncsCache (opt ?s0) reg = None"
    using applyOptions_cache[OF std, of newOptions] by (simp add: start_NewClient newOptions_def)
  with run_justified[OF c]
  show "\<exists>ctx cred. Call ctx reg \<in> set steps \<and> cred \<noteq> EmptyCredential
          \<and> FuncCalled p ctx reg (Returns (cred, None)) \<in> set (calls (run steps ?s0))"
    by simp
  show "CredentialsFuncsCache (opt (run (steps @ more) ?s0)) reg = Some p"
    unfolding run_append using c by (rule run_keeps)
qed

theorem cache_invariant_witness:
  "list_all package_option
      [WithStore EmptyCredentialFunc, WithOAuthCredentials oauthT1, WithGcpCredentials diskFails]
   \<and> CredentialsFuncsCache (opt (run [Call (Context 0) ''reg.example.com''] scenarioA))
        ''reg.example.com'' = Some oauthT1
   \<and> (\<exists>ctx cred. Call ctx ''reg.example.com'' \<in> set [Call (Context 0) ''reg.example.com'']
         \<and> cred \<noteq> EmptyCredential
         \<and> FuncCalled oauthT1 ctx ''reg.example.com'' (Returns (cred, None))
              \<in> set (calls (run [Call (Context 0) ''reg.example.com''] scenarioA)))
   \<and> CredentialsFuncsCache (opt (run ([Call (Context 0) ''reg.example.com''] @ laterSteps) scenarioA))
        ''reg.example.com'' = Some oauthT1"
proof -
  let ?options = "[WithStore EmptyCredentialFunc, WithOAuthCredentials oauthT1,
      WithGcpCredentials diskFails] :: (unit Options \<Rightarrow> unit Options) list"
  have h: "\<forall>o1 \<in> set ?options. package_option o1"
    by (simp add: package_option.intros)
  have r: "run [Call (Context 0) ''reg.example.com''] scenarioA = scenarioA1"
    by (simp add: scenarioA_first)
  have c: "CredentialsFuncsCache (opt (run [Call (Context 0) ''reg.example.com'']
      (start (NewClient ?options) exampleWorld))) ''reg.example.com'' = Some oauthT1"
    using r by (simp add: scenarioA_def scenarioA1_def)
  from cache_invariant[OF h, of exampleWorld, rule_format, OF c]
  show ?thesis using h c by (simp add: scenarioA_def list_all_iff)
qed

text \<open>
  C8 (insecure is opt-in). The transport of the client of \<open>NewClient\<close> has a
  TLS configuration, with \<open>InsecureSkipVerify\<close>, exactly when the
  \<open>Insecure\<close> flag is set, and none otherwise; so the client skips certificate
  verification exactly when the \<open>Insecure\<close> flag is set once the options
  have run; for options of this package that is exactly when \<open>WithInsecure\<close>
  is among them; and with no options the client verifies.
\<close>

theorem insecure_opt_in:
  "TLSClientConfig (Client (NewClient options))
     = (if Insecure (applyOptions options newOptions)
        then Some \<lparr>InsecureSkipVerify = True\<rparr> else None)
   \<and> skipsVerification (NewClient options) = Insecure (applyOptions options newOptions)
   \<and> ((\<forall>o1 \<in> set options. package_option o1) \<longrightarrow>
        skipsVerification (NewClient options) = (WithInsecure \<in> set options))
   \<and> \<not> skipsVerification (NewClient [])"
proof (intro conjI impI)
  show "TLSClientConfig (Client (NewClient options))
     = (if Insecure (applyOptions options newOptions)
        then Some \<lparr>InsecureSkipVerify = True\<rparr> else None)"
    by (simp add: NewClient_def SetUserAgent_def newTransport_def Let_def)
  show "skipsVerification (NewClient options) = Insecure (applyOptions options newOptions)"
    by (rule skipsVerification_NewClient)
  show "skipsVerification (NewClient options) = (WithInsecure \<in> set options)"
    if "\<forall>o1 \<in> set options. package_option o1"
    using applyOptions_Insecure[OF that, of newOptions]
    by (simp add: skipsVerification_NewClient newOptions_def)
  show "\<not> skipsVerification (NewClient [])"
    by (simp add: skipsVerification_NewClient newOptions_def)
qed

theorem insecure_opt_in_witness:
  "list_all package_option [WithStore (EmptyCredentialFunc :: unit CredentialFunc), WithInsecure]
   \<and> WithInsecure \<in> set [WithStore (EmptyCredentialFunc :: unit CredentialFunc), WithInsecure]
   \<and> skipsVerification (NewClient [WithStore (EmptyCredentialFunc :: unit CredentialFunc), WithInsecure])
   \<and> \<not> skipsVerification (NewClient [WithStore (EmptyCredentialFunc :: unit CredentialFunc)])"
proof -
  let ?options = "[WithStore (EmptyCredentialFunc :: unit CredentialFunc), WithInsecure]"
  have h: "\<forall>o1 \<in> set ?options. package_option o1"
    by (simp add: package_option.intros)
  have m: "WithInsecure \<in> set ?options" by simp
  have "skipsVerification (NewClient ?options) = (WithInsecure \<in> set ?options)"
    using insecure_opt_in[of ?options] h by blast
  then have "skipsVerification (NewClient ?options)" using m by simp
  moreover have "\<not> skipsVerification (NewClient [WithStore (EmptyCredentialFunc :: unit CredentialFunc)])"
    by (simp add: skipsVerification_NewClient WithStore_def newOptions_def)
  ultimately show ?thesis using h m by (simp add: list_all_iff)
qed

text \<open>
  C9 (static configuration). Whatever the options, the client of \<open>NewClient\<close>
  has the header \<open>User-Agent\<close> set to \<open>falcoctl\<close>, a dialer with timeout and
  keep-alive of 30 s, idle-connection timeout 90 s, TLS handshake timeout 10 s,
  expect-continue timeout 1 s, at most 100 idle connections, HTTP/2 attempted
  and the proxy taken from the environment. The largest duration, 90 s, is
  \<open>90 * 10 ^ 9\<close> nanoseconds as a signed 64-bit value: nothing wraps.
\<close>

theorem factory_static_configuration:
  "Header (NewClient options) ''User-Agent'' = Some [''falcoctl'']
   \<and> DialContext (Client (NewClient options))
       = Some \<lparr>Timeout = 30 * Second, KeepAlive = 30 * Second\<rparr>
   \<and> IdleConnTimeout (Client (NewClient options)) = 90 * Second
   \<and> TLSHandshakeTimeout (Client (NewClient options)) = 10 * Second
   \<and> ExpectContinueTimeout (Client (NewClient options)) = 1 * Second
   \<and> MaxIdleConns (Client (NewClient options)) = 100
   \<and> ForceAttemptHTTP2 (Client (NewClient options))
   \<and> Proxy (Client (NewClient options)) = Some ProxyFromEnvironment
   \<and> sint (IdleConnTimeout (Client (NewClient options))) = 90 * 10 ^ 9"
  by (simp add: NewClient_def SetUserAgent_def newTransport_def falcoctlUserAgent_def Let_def
      Second_def)

text \<open>
  C10 (the static credential function). For a pointer \<open>cred\<close> that is not
  \<open>nil\<close>, \<open>WithCredentials cred\<close> appends a function that, for every context,
  host and world, returns the credential the world holds at \<open>cred\<close> when it is
  called, with no error, and changes nothing; once the credential at \<open>cred\<close>
  is overwritten the function returns the new one. A search that reaches it
  never fails there: it ends with that credential when it is not empty, and goes
  on to the remaining functions when it is.
\<close>

theorem static_credential_never_errors:
  assumes valid: "cred = Some a"
  shows "CredentialsFuncs (WithCredentials cred c) = CredentialsFuncs c @ [staticCredential cred]
     \<and> staticCredential cred ctx reg w = (Returns (creds w a, None), w)
     \<and> staticCredential cred ctx reg (w\<lparr>creds := (creds w)(a := v)\<rparr>)
         = (Returns (v, None), w\<lparr>creds := (creds w)(a := v)\<rparr>)
     \<and> search (staticCredential cred # rest) ctx reg s
         = (if creds (world s) a \<noteq> EmptyCredential
            then (Returns (creds (world s) a, None),
                  cache_put reg (staticCredential cred)
                    (s\<lparr>calls := calls s @ [FuncCalled (staticCredential cred) ctx reg
                                              (Returns (creds (world s) a, None))]\<rparr>))
            else search rest ctx reg
                   (s\<lparr>calls := calls s @ [FuncCalled (staticCredential cred) ctx reg
                                             (Returns (EmptyCredential, None))]\<rparr>))"
  using valid by (simp add: WithCredentials_def staticCredential_def invoke_def)

theorem static_credential_never_errors_witness:
  "CredentialsFuncs (opt scenarioB) = [staticCredential (Some 0)]
   \<and> staticCredential (Some 0) (Context 0) ''x.io'' exampleWorld = (Returns (userPass, None), exampleWorld)
   \<and> staticCredential (Some 0) (Context 0) ''x.io'' (exampleWorld\<lparr>creds := (creds exampleWorld)(0 := tokenT1)\<rparr>)
       = (Returns (tokenT1, None), exampleWorld\<lparr>creds := (creds exampleWorld)(0 := tokenT1)\<rparr>)
   \<and> fst (Credential (Context 0) ''x.io'' scenarioB) = Returns (userPass, None)"
proof -
  have up: "userPass \<noteq> EmptyCredential" by (simp add: userPass_def EmptyCredential_def)
  have w0: "creds exampleWorld 0 = userPass" by (simp add: exampleWorld_def)
  have ws: "world scenarioB = exampleWorld" by (simp add: scenarioB_eq)
  note t = static_credential_never_errors[where cred = "Some 0" and a = 0, OF refl,
      where c = "newOptions :: unit Options" and ctx = "Context 0" and reg = "''x.io''"
        and w = exampleWorld and v = tokenT1 and rest = "[]" and s = scenarioB]
  have b: "staticCredential (Some 0) (Context 0) ''x.io'' exampleWorld
      = (Returns (userPass, None), exampleWorld)"
    using t[THEN conjunct2, THEN conjunct1] w0 by simp
  have c: "staticCredential (Some 0) (Context 0) ''x.io''
        (exampleWorld\<lparr>creds := (creds exampleWorld)(0 := tokenT1)\<rparr>)
      = (Returns (tokenT1, None), exampleWorld\<lparr>creds := (creds exampleWorld)(0 := tokenT1)\<rparr>)"
    by (rule t[THEN conjunct2, THEN conjunct2, THEN conjunct1])
  have d: "fst (search [staticCredential (Some 0)] (Context 0) ''x.io'' scenarioB)
      = Returns (userPass, None)"
    unfolding t[THEN conjunct2, THEN conjunct2, THEN conjunct2] ws w0 using up by simp
  have fs: "CredentialsFuncs (opt scenarioB) = [staticCredential (Some 0)]"
    by (simp add: scenarioB_eq)
  have "CredentialsFuncsCache (opt scenarioB) ''x.io'' = None"
    and "AutoLoginHandler (opt scenarioB) = None"
    by (simp_all add: scenarioB_eq)
  then have "Credential (Context 0) ''x.io'' scenarioB
      = search [staticCredential (Some 0)] (Context 0) ''x.io'' scenarioB"
    unfolding Credential_def fs by simp
  then show ?thesis using b c d fs by simp
qed

end
